theory Spec2Isabelle
  imports Main
begin

section \<open>The store: nodes, slices and their backing arrays\<close>

text \<open>
  The package mutates a parent-linked tree of \<^verbatim>\<open>*Node\<close> through Go slices, so the model
  keeps an explicit store. A pointer is an address or nil; a slice is a window
  (offset, length, capacity) on a backing array that lives in the store, so that two
  slices of one array see each other's writes, as in Go. New nodes and arrays are put
  at the end of the store: the address of an allocation is always fresh.
\<close>

datatype error = NilDeref | IndexOutOfRange | Panic string | OutOfFuel

type_synonym ptr = "nat option"

record slice =
  s_base :: nat
  s_off :: nat
  s_len :: nat
  s_cap :: nat

record Attribute =
  Key :: string
  Val :: string

record Node =
  Parent :: ptr
  Child :: slice
  Type :: nat
  Data :: string
  Attr :: slice

record Document =
  root :: ptr

record heap =
  nodes :: "Node list"
  parrs :: "ptr list list"
  aarrs :: "Attribute list list"
  docs :: "Document list"

type_synonym TransformFunc = "ptr \<Rightarrow> heap \<Rightarrow> error + heap"

definition nil_slice :: slice where
  "nil_slice = \<lparr>s_base = 0, s_off = 0, s_len = 0, s_cap = 0\<rparr>"

definition zero_attr :: Attribute where
  "zero_attr = \<lparr>Key = [], Val = []\<rparr>"

text \<open>The elements a slice shows, read from its backing array.\<close>

definition elems :: "'a list list \<Rightarrow> slice \<Rightarrow> 'a list" where
  "elems arrs s = take (s_len s) (drop (s_off s) (arrs ! s_base s))"

text \<open>
  A slice is in order when its length is within its capacity and its window lies inside
  its backing array. A slice of capacity 0 (the nil slice among them) needs no array.
\<close>

definition slice_ok :: "'a list list \<Rightarrow> slice \<Rightarrow> bool" where
  "slice_ok arrs s \<longleftrightarrow>
     s_len s \<le> s_cap s \<and>
     (0 < s_cap s \<longrightarrow> s_base s < length arrs \<and> s_off s + s_cap s \<le> length (arrs ! s_base s))"

text \<open>Writing \<open>xs\<close> into the backing array of \<open>s\<close>, from index \<open>k\<close> of the slice on.\<close>

definition store_at :: "'a list list \<Rightarrow> slice \<Rightarrow> nat \<Rightarrow> 'a list \<Rightarrow> 'a list list" where
  "store_at arrs s k xs =
     arrs[s_base s :=
       (let a = arrs ! s_base s
        in take (s_off s + k) a @ xs @ drop (s_off s + k + length xs) a)]"

text \<open>\<^verbatim>\<open>make([]T, n)\<close>: a new array of \<open>n\<close> zero values and the slice of all of it.\<close>

definition go_make :: "'a \<Rightarrow> nat \<Rightarrow> 'a list list \<Rightarrow> slice \<times> 'a list list" where
  "go_make z n arrs =
     (\<lparr>s_base = length arrs, s_off = 0, s_len = n, s_cap = n\<rparr>, arrs @ [replicate n z])"

text \<open>
  \<^verbatim>\<open>copy(dst, src)\<close> writes the first \<open>min (len dst) (len src)\<close> elements of the source, read
  before any write (Go's copy is safe on overlapping slices).
\<close>

definition go_copy :: "'a list list \<Rightarrow> slice \<Rightarrow> 'a list \<Rightarrow> 'a list list" where
  "go_copy arrs dst xs = store_at arrs dst 0 (take (s_len dst) xs)"

text \<open>
  \<^verbatim>\<open>append(s, xs...)\<close>: when the capacity of \<open>s\<close> has room, the elements are written into the
  backing array of \<open>s\<close>, behind its length, and every other slice of that array sees them.
  Otherwise a new array is allocated; its capacity is the runtime's choice, the parameter
  \<open>grow\<close>, and is at least the length needed.
\<close>

definition go_append ::
  "(nat \<Rightarrow> nat \<Rightarrow> nat) \<Rightarrow> 'a \<Rightarrow> slice \<Rightarrow> 'a list \<Rightarrow> 'a list list \<Rightarrow> slice \<times> 'a list list" where
  "go_append grow z s xs arrs =
     (let need = s_len s + length xs
      in if need \<le> s_cap s then (s\<lparr>s_len := need\<rparr>, store_at arrs s (s_len s) xs)
         else (let c = max need (grow (s_cap s) need)
               in (\<lparr>s_base = length arrs, s_off = 0, s_len = need, s_cap = c\<rparr>,
                   arrs @ [elems arrs s @ xs @ replicate (c - need) z])))"

text \<open>The slice expressions \<^verbatim>\<open>s[:hi]\<close> and \<^verbatim>\<open>s[lo:]\<close>, with Go's bound checks.\<close>

definition slice_to :: "slice \<Rightarrow> nat \<Rightarrow> error + slice" where
  "slice_to s hi = (if hi \<le> s_cap s then Inr (s\<lparr>s_len := hi\<rparr>) else Inl IndexOutOfRange)"

definition slice_from :: "slice \<Rightarrow> nat \<Rightarrow> error + slice" where
  "slice_from s lo =
     (if lo \<le> s_len s
      then Inr \<lparr>s_base = s_base s, s_off = s_off s + lo, s_len = s_len s - lo, s_cap = s_cap s - lo\<rparr>
      else Inl IndexOutOfRange)"

text \<open>Following a pointer: nil (or an address outside the store) panics.\<close>

definition deref :: "heap \<Rightarrow> ptr \<Rightarrow> error + nat" where
  "deref h p =
     (case p of None \<Rightarrow> Inl NilDeref
      | Some a \<Rightarrow> if a < length (nodes h) then Inr a else Inl NilDeref)"

text \<open>The indexed write \<^verbatim>\<open>s[i] = x\<close>, with its bound check.\<close>

definition set_index :: "'a list list \<Rightarrow> slice \<Rightarrow> nat \<Rightarrow> 'a \<Rightarrow> error + 'a list list" where
  "set_index arrs s i x =
     (if i < s_len s then Inr (store_at arrs s i [x]) else Inl IndexOutOfRange)"

definition set_Child :: "nat \<Rightarrow> slice \<Rightarrow> heap \<Rightarrow> heap" where
  "set_Child a s h = h\<lparr>nodes := (nodes h)[a := (nodes h ! a)\<lparr>Child := s\<rparr>]\<rparr>"

definition set_Attr :: "nat \<Rightarrow> slice \<Rightarrow> heap \<Rightarrow> heap" where
  "set_Attr a s h = h\<lparr>nodes := (nodes h)[a := (nodes h ! a)\<lparr>Attr := s\<rparr>]\<rparr>"

text \<open>What an observer reads: the child sequence and the attribute list of a node.\<close>

definition children :: "heap \<Rightarrow> nat \<Rightarrow> ptr list" where
  "children h a = elems (parrs h) (Child (nodes h ! a))"

definition attributes :: "heap \<Rightarrow> nat \<Rightarrow> Attribute list" where
  "attributes h a = elems (aarrs h) (Attr (nodes h ! a))"

section \<open>Mutation primitives on children\<close>

text \<open>
  The variadic argument \<^verbatim>\<open>cs ...*Node\<close> of a constructor is an array of its own that the
  operation only reads; it is carried as the list of its pointers.
\<close>

definition AppendChildren :: "ptr list \<Rightarrow> TransformFunc" where
  "AppendChildren cs n h =
     (case deref h n of Inl e \<Rightarrow> Inl e
      | Inr a \<Rightarrow>
          (let ch = Child (nodes h ! a);
               sz = s_len ch;
               (newChild, arrs1) = go_make None (sz + length cs) (parrs h);
               arrs2 = go_copy arrs1 newChild (elems arrs1 ch)
           in case slice_from newChild sz of Inl e \<Rightarrow> Inl e
              | Inr d \<Rightarrow> Inr (set_Child a newChild (h\<lparr>parrs := go_copy arrs2 d cs\<rparr>))))"

definition PrependChildren :: "ptr list \<Rightarrow> TransformFunc" where
  "PrependChildren cs n h =
     (case deref h n of Inl e \<Rightarrow> Inl e
      | Inr a \<Rightarrow>
          (let ch = Child (nodes h ! a);
               sz = s_len ch;
               sz2 = length cs;
               (newChild, arrs1) = go_make None (sz + length cs) (parrs h)
           in case slice_from newChild sz2 of Inl e \<Rightarrow> Inl e
              | Inr d1 \<Rightarrow>
                  (let arrs2 = go_copy arrs1 d1 (elems arrs1 ch)
                   in case slice_to newChild sz2 of Inl e \<Rightarrow> Inl e
                      | Inr d2 \<Rightarrow>
                          Inr (set_Child a newChild (h\<lparr>parrs := go_copy arrs2 d2 cs\<rparr>)))))"

definition RemoveChildren :: TransformFunc where
  "RemoveChildren n h =
     (case deref h n of Inl e \<Rightarrow> Inl e
      | Inr a \<Rightarrow>
          (let (newChild, arrs1) = go_make None 0 (parrs h)
           in Inr (set_Child a newChild (h\<lparr>parrs := arrs1\<rparr>))))"

definition ReplaceChildren :: "slice \<Rightarrow> TransformFunc" where
  "ReplaceChildren ns n h =
     (case deref h n of Inl e \<Rightarrow> Inl e | Inr a \<Rightarrow> Inr (set_Child a ns h))"

section \<open>Replace\<close>

text \<open>
  One firing of the body of the loop of \<^verbatim>\<open>Replace\<close>, at index \<open>i\<close> of the child slice of
  the parent at address \<open>p\<close>. \<^verbatim>\<open>pre\<close> and \<^verbatim>\<open>post\<close> are slices of the parent's own backing
  array, so the first \<^verbatim>\<open>append\<close> writes the replacements into that array whenever its
  capacity has room, and \<^verbatim>\<open>post\<close> is read only afterwards, by the second \<^verbatim>\<open>append\<close>.
\<close>

definition Replace_step :: "(nat \<Rightarrow> nat \<Rightarrow> nat) \<Rightarrow> ptr list \<Rightarrow> nat \<Rightarrow> nat \<Rightarrow> heap \<Rightarrow> error + heap" where
  "Replace_step grow ns p i h =
     (let n = int i - 1;
          n = (if n < 0 then 0 else n)
      in case slice_to (Child (nodes h ! p)) (nat n) of Inl e \<Rightarrow> Inl e
         | Inr pre \<Rightarrow>
             (case slice_from (Child (nodes h ! p)) (i + 1) of Inl e \<Rightarrow> Inl e
              | Inr post \<Rightarrow>
                  (let (newChild, arrs1) = go_append grow None pre ns (parrs h);
                       (res, arrs2) = go_append grow None newChild (elems arrs1 post) arrs1
                   in Inr (set_Child p res (h\<lparr>parrs := arrs2\<rparr>)))))"

text \<open>
  The loop \<^verbatim>\<open>for i, c := range p.Child\<close>: the slice \<open>r\<close> is the value of \<^verbatim>\<open>p.Child\<close> when the
  loop starts, \<open>k\<close> counts the iterations left, and \<open>c\<close> is read from the backing array
  in its state at iteration \<open>i\<close>.
\<close>

fun Replace_loop ::
  "(nat \<Rightarrow> nat \<Rightarrow> nat) \<Rightarrow> ptr list \<Rightarrow> ptr \<Rightarrow> nat \<Rightarrow> slice \<Rightarrow> nat \<Rightarrow> nat \<Rightarrow> heap \<Rightarrow> error + heap" where
  "Replace_loop grow ns n p r 0 i h = Inr h"
| "Replace_loop grow ns n p r (Suc k) i h =
     (let c = parrs h ! s_base r ! (s_off r + i)
      in if c = n
         then (case Replace_step grow ns p i h of Inl e \<Rightarrow> Inl e
               | Inr h' \<Rightarrow> Replace_loop grow ns n p r k (Suc i) h')
         else Replace_loop grow ns n p r k (Suc i) h)"

definition Replace :: "(nat \<Rightarrow> nat \<Rightarrow> nat) \<Rightarrow> ptr list \<Rightarrow> TransformFunc" where
  "Replace grow ns n h =
     (case deref h n of Inl e \<Rightarrow> Inl e
      | Inr a \<Rightarrow>
          (case deref h (Parent (nodes h ! a)) of Inl e \<Rightarrow> Inl e
           | Inr p \<Rightarrow>
               (let r = Child (nodes h ! p)
                in Replace_loop grow ns n p r (s_len r) 0 h)))"

section \<open>ModifyAttrib\<close>

fun ModifyAttrib_loop ::
  "string \<Rightarrow> string \<Rightarrow> nat \<Rightarrow> slice \<Rightarrow> nat \<Rightarrow> nat \<Rightarrow> bool \<Rightarrow> heap \<Rightarrow> error + (bool \<times> heap)" where
  "ModifyAttrib_loop key val a r 0 i found h = Inr (found, h)"
| "ModifyAttrib_loop key val a r (Suc k) i found h =
     (let attr = aarrs h ! s_base r ! (s_off r + i)
      in if Key attr = key
         then (let s = Attr (nodes h ! a)
               in case set_index (aarrs h) s i
                         ((aarrs h ! s_base s ! (s_off s + i))\<lparr>Val := val\<rparr>) of
                    Inl e \<Rightarrow> Inl e
                  | Inr arrs1 \<Rightarrow>
                      ModifyAttrib_loop key val a r k (Suc i) True (h\<lparr>aarrs := arrs1\<rparr>))
         else ModifyAttrib_loop key val a r k (Suc i) found h)"

definition ModifyAttrib :: "string \<Rightarrow> string \<Rightarrow> TransformFunc" where
  "ModifyAttrib key val n h =
     (case deref h n of Inl e \<Rightarrow> Inl e
      | Inr a \<Rightarrow>
          (let r = Attr (nodes h ! a)
           in case ModifyAttrib_loop key val a r (s_len r) 0 False h of Inl e \<Rightarrow> Inl e
              | Inr (found, h1) \<Rightarrow>
                  if \<not> found
                  then (let sz = s_len (Attr (nodes h1 ! a));
                            (newAttr, arrs1) = go_make zero_attr (sz + 1) (aarrs h1)
                        in case set_index arrs1 newAttr sz \<lparr>Key = key, Val = val\<rparr> of
                             Inl e \<Rightarrow> Inl e
                           | Inr arrs2 \<Rightarrow> Inr (set_Attr a newAttr (h1\<lparr>aarrs := arrs2\<rparr>)))
                  else Inr h1))"

section \<open>Combinators\<close>

fun DoAll :: "TransformFunc list \<Rightarrow> TransformFunc" where
  "DoAll [] n h = Inr h"
| "DoAll (f # fs) n h = (case f n h of Inl e \<Rightarrow> Inl e | Inr h' \<Rightarrow> DoAll fs n h')"

text \<open>
  The argument \<^verbatim>\<open>f interface{}\<close> of \<^verbatim>\<open>ForEach\<close> by its dynamic type: the two function types
  of the type switch, and everything else. A Go function that builds an operation may
  itself read and write the store, or panic.
\<close>

type_synonym 'a builder = "'a \<Rightarrow> heap \<Rightarrow> error + (TransformFunc \<times> heap)"

datatype ForEach_arg = Variadic "ptr list builder" | Unary "ptr builder" | Other

fun ForEach_loop :: "ptr builder \<Rightarrow> ptr list \<Rightarrow> TransformFunc" where
  "ForEach_loop f1 [] n h = Inr h"
| "ForEach_loop f1 (n2 # ns) n h =
     (case f1 n2 h of Inl e \<Rightarrow> Inl e
      | Inr (f2, h1) \<Rightarrow>
          (case f2 n h1 of Inl e \<Rightarrow> Inl e | Inr h2 \<Rightarrow> ForEach_loop f1 ns n h2))"

definition ForEach :: "ForEach_arg \<Rightarrow> ptr list \<Rightarrow> error + TransformFunc" where
  "ForEach f ns =
     (case f of
        Variadic f1 \<Rightarrow> Inr (ForEach_loop (\<lambda>n2. f1 [n2]) ns)
      | Unary f1 \<Rightarrow> Inr (ForEach_loop f1 ns)
      | Other \<Rightarrow> Inl (Panic ''Wrong function type passed to ForEach''))"

text \<open>
  \<^verbatim>\<open>CopyAnd\<close> calls \<^verbatim>\<open>cloneNode\<close>, which is a parameter here. \<^verbatim>\<open>newNodes\<close> is a local array
  that no operation can reach; it is carried as the list of the clones.
\<close>

type_synonym cloner = "ptr \<Rightarrow> ptr \<Rightarrow> heap \<Rightarrow> error + (ptr \<times> heap)"

fun CopyAnd_loop :: "cloner \<Rightarrow> TransformFunc list \<Rightarrow> ptr \<Rightarrow> heap \<Rightarrow> error + (ptr list \<times> heap)" where
  "CopyAnd_loop clone [] n h = Inr ([], h)"
| "CopyAnd_loop clone (fn # fns) n h =
     (case deref h n of Inl e \<Rightarrow> Inl e
      | Inr a \<Rightarrow>
          (case clone n (Parent (nodes h ! a)) h of Inl e \<Rightarrow> Inl e
           | Inr (node, h1) \<Rightarrow>
               (case fn node h1 of Inl e \<Rightarrow> Inl e
                | Inr h2 \<Rightarrow>
                    (case CopyAnd_loop clone fns n h2 of Inl e \<Rightarrow> Inl e
                     | Inr (newNodes, h3) \<Rightarrow> Inr (node # newNodes, h3)))))"

definition CopyAnd :: "(nat \<Rightarrow> nat \<Rightarrow> nat) \<Rightarrow> cloner \<Rightarrow> TransformFunc list \<Rightarrow> TransformFunc" where
  "CopyAnd grow clone fns n h =
     (case CopyAnd_loop clone fns n h of Inl e \<Rightarrow> Inl e
      | Inr (newNodes, h1) \<Rightarrow> Replace grow newNodes n h1)"

section \<open>The Transformer\<close>

text \<open>
  \<^verbatim>\<open>NewSelectorQuery\<close> and the query's \<^verbatim>\<open>Apply\<close> are the selector library: a parameter \<open>Q\<close>
  that, from the selector strings, the document and the store, gives the matched nodes
  in order (or panics), and does not write the store.
\<close>

record Transformer =
  doc :: ptr

type_synonym query = "string list \<Rightarrow> ptr \<Rightarrow> heap \<Rightarrow> error + ptr list"

fun Apply_loop :: "TransformFunc \<Rightarrow> ptr list \<Rightarrow> heap \<Rightarrow> error + heap" where
  "Apply_loop f [] h = Inr h"
| "Apply_loop f (n # ns) h = (case f n h of Inl e \<Rightarrow> Inl e | Inr h' \<Rightarrow> Apply_loop f ns h')"

definition Apply ::
  "query \<Rightarrow> Transformer \<Rightarrow> TransformFunc \<Rightarrow> string list \<Rightarrow> heap \<Rightarrow> error + (Transformer \<times> heap)" where
  "Apply Q t f sel h =
     (case Q sel (doc t) h of Inl e \<Rightarrow> Inl e
      | Inr ms \<Rightarrow>
          (case Apply_loop f ms h of Inl e \<Rightarrow> Inl e | Inr h' \<Rightarrow> Inr (t, h')))"


section \<open>Documents and cloning\<close>

text \<open>
  Modelled from the spec: the type \<^verbatim>\<open>Document\<close>, its method \<^verbatim>\<open>Clone\<close> and the function
  \<^verbatim>\<open>cloneNode\<close> are not in the source file. The specification has a Document as the root
  container of a tree, \<^verbatim>\<open>Clone\<close> as a deep copy that shares no node with its source, and
  \<^verbatim>\<open>cloneNode(n, p)\<close> as a deep clone of \<open>n\<close> whose parent reference is \<open>p\<close>. The clone of
  a node is a new node with the kind and text of the original, a new array holding a
  copy of its attributes, and a new array holding the clones of its children, each with
  the new node as parent. The recursion follows child pointers in the store, so it
  takes fuel: one unit for each level of the tree.
\<close>

fun cloneNode :: "nat \<Rightarrow> ptr \<Rightarrow> ptr \<Rightarrow> heap \<Rightarrow> error + (ptr \<times> heap)"
  and cloneNodes :: "nat \<Rightarrow> ptr list \<Rightarrow> ptr \<Rightarrow> heap \<Rightarrow> error + (ptr list \<times> heap)" where
  "cloneNode 0 n p h = Inl OutOfFuel"
| "cloneNode (Suc k) n p h =
     (case deref h n of Inl e \<Rightarrow> Inl e
      | Inr a \<Rightarrow>
          (let nd = nodes h ! a;
               b = length (nodes h);
               (newAttr, arrs1) = go_make zero_attr (s_len (Attr nd)) (aarrs h);
               arrs2 = go_copy arrs1 newAttr (elems arrs1 (Attr nd));
               h1 = h\<lparr>nodes := nodes h @ [\<lparr>Parent = p, Child = nil_slice, Type = Type nd,
                                             Data = Data nd, Attr = newAttr\<rparr>],
                      aarrs := arrs2\<rparr>
           in case cloneNodes k (elems (parrs h) (Child nd)) (Some b) h1 of Inl e \<Rightarrow> Inl e
              | Inr (cs, h2) \<Rightarrow>
                  (let (newChild, parrs1) = go_make None (length cs) (parrs h2)
                   in Inr (Some b,
                           set_Child b newChild (h2\<lparr>parrs := go_copy parrs1 newChild cs\<rparr>)))))"
| "cloneNodes k [] p h = Inr ([], h)"
| "cloneNodes k (c # cs) p h =
     (case cloneNode k c p h of Inl e \<Rightarrow> Inl e
      | Inr (c', h1) \<Rightarrow>
          (case cloneNodes k cs p h1 of Inl e \<Rightarrow> Inl e
           | Inr (cs', h2) \<Rightarrow> Inr (c' # cs', h2)))"



definition Doc :: "Transformer \<Rightarrow> ptr" where
  "Doc t = doc t"

section \<open>Observations and a sample store\<close>

text \<open>
  \<open>only_Child_changed a h h'\<close>: from \<open>h\<close> to \<open>h'\<close> nothing but the field \<^verbatim>\<open>Child\<close> of the
  node at \<open>a\<close> was written. Every other node, every other field of that node, every
  attribute array, every document and every pointer array that existed in \<open>h\<close> is as it
  was; new pointer arrays may have been allocated.
\<close>

definition only_Child_changed :: "nat \<Rightarrow> heap \<Rightarrow> heap \<Rightarrow> bool" where
  "only_Child_changed a h h' \<longleftrightarrow>
     nodes h' = (nodes h)[a := (nodes h ! a)\<lparr>Child := Child (nodes h' ! a)\<rparr>] \<and>
     aarrs h' = aarrs h \<and>
     docs h' = docs h \<and>
     take (length (parrs h)) (parrs h') = parrs h"

text \<open>
  A sample store: the node 0 with the children 1 and 2 (in an array of capacity 2) and
  the attribute \<^verbatim>\<open>class="x"\<close>, two more nodes 3 and 4 without parent, and the document
  0 whose root is the node 0.
\<close>

definition leaf :: "ptr \<Rightarrow> string \<Rightarrow> Node" where
  "leaf p d = \<lparr>Parent = p, Child = nil_slice, Type = 1, Data = d, Attr = nil_slice\<rparr>"

definition sample :: heap where
  "sample =
     \<lparr>nodes =
        [\<lparr>Parent = None, Child = \<lparr>s_base = 0, s_off = 0, s_len = 2, s_cap = 2\<rparr>,
          Type = 1, Data = ''ul'', Attr = \<lparr>s_base = 0, s_off = 0, s_len = 1, s_cap = 1\<rparr>\<rparr>,
         leaf (Some 0) ''li'', leaf (Some 0) ''li'', leaf None ''b'', leaf None ''i''],
      parrs = [[Some 1, Some 2]],
      aarrs = [[\<lparr>Key = ''class'', Val = ''x''\<rparr>]],
      docs = [\<lparr>root = Some 0\<rparr>]\<rparr>"

text \<open>
  The sample store with the node 3 made to name the node 0 as its parent, while the
  child list of the node 0 still holds 1 and 2 only.
\<close>

definition sample_detached :: heap where
  "sample_detached = sample\<lparr>nodes := (nodes sample)[3 := leaf (Some 0) ''b'']\<rparr>"

text \<open>
  Running steps in order, as the specification words it: each step works on the store
  the one before left, and a panic ends the run.
\<close>

definition in_order :: "(heap \<Rightarrow> error + heap) list \<Rightarrow> heap \<Rightarrow> error + heap" where
  "in_order steps h =
     foldl (\<lambda>r step. case r of Inl e \<Rightarrow> Inl e | Inr h' \<Rightarrow> step h') (Inr h) steps"

text \<open>Building the operation of \<open>f1\<close> bound to \<open>n2\<close> and applying it to \<open>n\<close> at once.\<close>

definition build_and_apply :: "ptr builder \<Rightarrow> ptr \<Rightarrow> ptr \<Rightarrow> heap \<Rightarrow> error + heap" where
  "build_and_apply f1 n n2 h =
     (case f1 n2 h of Inl e \<Rightarrow> Inl e | Inr (f2, h1) \<Rightarrow> f2 n h1)"

text \<open>Setting the value of an attribute entry when its key is the given one.\<close>

definition set_Val :: "string \<Rightarrow> string \<Rightarrow> Attribute \<Rightarrow> Attribute" where
  "set_Val key val at = (if Key at = key then at\<lparr>Val := val\<rparr> else at)"

text \<open>A growth policy for the examples: a new array gets twice the length needed.\<close>

definition grow_double :: "nat \<Rightarrow> nat \<Rightarrow> nat" where
  "grow_double c n = 2 * n"

text \<open>The child sequence of a node in the store an operation returned.\<close>

definition children_after :: "error + heap \<Rightarrow> nat \<Rightarrow> error + ptr list" where
  "children_after res a = (case res of Inl e \<Rightarrow> Inl e | Inr h \<Rightarrow> Inr (children h a))"

section \<open>Keeping the source document\<close>




























section \<open>Facts about slices\<close>

lemma length_elems: "slice_ok arrs s \<Longrightarrow> length (elems arrs s) = s_len s"
  by (cases "s_cap s = 0") (auto simp: slice_ok_def elems_def)

lemma elems_grow: "slice_ok arrs s \<Longrightarrow> elems (arrs @ ys) s = elems arrs s"
  by (cases "s_cap s = 0") (auto simp: slice_ok_def elems_def nth_append)

section \<open>Append and prepend\<close>

lemma AppendChildren_children:
  assumes a: "a < length (nodes h)" and ok: "slice_ok (parrs h) (Child (nodes h ! a))"
  shows "\<exists>h'. AppendChildren cs (Some a) h = Inr h' \<and> children h' a = children h a @ cs"
proof -
  let ?ch = "Child (nodes h ! a)"
  obtain xs where xs: "elems (parrs h) ?ch = xs" and len: "length xs = s_len ?ch"
    using length_elems [OF ok] by blast
  have gr: "\<And>ys. elems (parrs h @ ys) ?ch = xs"
    using elems_grow [OF ok] xs by simp
  have "AppendChildren cs (Some a) h =
          Inr (set_Child a \<lparr>s_base = length (parrs h), s_off = 0,
                 s_len = s_len ?ch + length cs, s_cap = s_len ?ch + length cs\<rparr>
               (h\<lparr>parrs := parrs h @ [xs @ cs]\<rparr>))"
    using a len
    by (simp add: AppendChildren_def deref_def go_make_def go_copy_def slice_from_def
        store_at_def gr Let_def)
  moreover have "children h a = xs"
    by (simp add: children_def xs)
  ultimately show ?thesis
    using a len by (simp add: set_Child_def) (simp add: children_def elems_def)
qed

lemma PrependChildren_children:
  assumes a: "a < length (nodes h)" and ok: "slice_ok (parrs h) (Child (nodes h ! a))"
  shows "\<exists>h'. PrependChildren cs (Some a) h = Inr h' \<and> children h' a = cs @ children h a"
proof -
  let ?ch = "Child (nodes h ! a)"
  obtain xs where xs: "elems (parrs h) ?ch = xs" and len: "length xs = s_len ?ch"
    using length_elems [OF ok] by blast
  have gr: "\<And>ys. elems (parrs h @ ys) ?ch = xs"
    using elems_grow [OF ok] xs by simp
  have "PrependChildren cs (Some a) h =
          Inr (set_Child a \<lparr>s_base = length (parrs h), s_off = 0,
                 s_len = s_len ?ch + length cs, s_cap = s_len ?ch + length cs\<rparr>
               (h\<lparr>parrs := parrs h @ [cs @ xs]\<rparr>))"
    using a len
    by (simp add: PrependChildren_def deref_def go_make_def go_copy_def slice_from_def
        slice_to_def store_at_def gr Let_def)
  moreover have "children h a = xs"
    by (simp add: children_def xs)
  ultimately show ?thesis
    using a len by (simp add: set_Child_def) (simp add: children_def elems_def)
qed

text \<open>
  C6. Applied to a node N, the operation of \<open>AppendChildren cs\<close> sets the child sequence
  of N to the old children followed by \<open>cs\<close>, and the operation of \<open>PrependChildren cs\<close>
  sets it to \<open>cs\<close> followed by the old children.
\<close>

theorem AppendChildren_PrependChildren_order:
  assumes "a < length (nodes h)" and "slice_ok (parrs h) (Child (nodes h ! a))"
  shows "(\<exists>h'. AppendChildren cs (Some a) h = Inr h' \<and> children h' a = children h a @ cs) \<and>
         (\<exists>h'. PrependChildren cs (Some a) h = Inr h' \<and> children h' a = cs @ children h a)"
  using assms AppendChildren_children PrependChildren_children by blast

theorem AppendChildren_PrependChildren_order_witness:
  "children sample 0 = [Some 1, Some 2] \<and>
   (\<exists>h'. AppendChildren [Some 3, Some 4] (Some 0) sample = Inr h' \<and>
         children h' 0 = [Some 1, Some 2, Some 3, Some 4]) \<and>
   (\<exists>h'. PrependChildren [Some 3, Some 4] (Some 0) sample = Inr h' \<and>
         children h' 0 = [Some 3, Some 4, Some 1, Some 2])"
proof -
  have c: "children sample 0 = [Some 1, Some 2]"
    by (simp add: sample_def children_def elems_def)
  have "0 < length (nodes sample)" and "slice_ok (parrs sample) (Child (nodes sample ! 0))"
    by (simp_all add: sample_def slice_ok_def)
  from AppendChildren_PrependChildren_order [OF this, of "[Some 3, Some 4]"] c
  show ?thesis by simp
qed

section \<open>RemoveChildren\<close>

lemma RemoveChildren_once:
  assumes "a < length (nodes h)"
  shows "\<exists>h'. RemoveChildren (Some a) h = Inr h' \<and> children h' a = [] \<and>
              only_Child_changed a h h' \<and> length (nodes h') = length (nodes h)"
  using assms
  by (simp add: RemoveChildren_def deref_def go_make_def set_Child_def children_def
      elems_def only_Child_changed_def)

text \<open>
  C9. For every node N, with or without children, the operation of \<open>RemoveChildren\<close>
  leaves N with an empty child sequence, and applied a second time leaves it empty
  again; each time nothing but the field \<^verbatim>\<open>Child\<close> of N is written: every other node,
  the other fields of N, the attribute arrays, the documents and the pointer arrays
  that existed are as they were.
\<close>

theorem RemoveChildren_idempotent:
  assumes "a < length (nodes h)"
  shows "\<exists>h1 h2. RemoveChildren (Some a) h = Inr h1 \<and> children h1 a = [] \<and>
                 only_Child_changed a h h1 \<and>
                 RemoveChildren (Some a) h1 = Inr h2 \<and> children h2 a = [] \<and>
                 only_Child_changed a h1 h2"
proof -
  obtain h1 where 1: "RemoveChildren (Some a) h = Inr h1" "children h1 a = []"
      "only_Child_changed a h h1" "length (nodes h1) = length (nodes h)"
    using RemoveChildren_once [OF assms] by blast
  then have "a < length (nodes h1)"
    using assms by simp
  then obtain h2 where 2: "RemoveChildren (Some a) h1 = Inr h2" "children h2 a = []"
      "only_Child_changed a h1 h2"
    using RemoveChildren_once by blast
  from 1 2 show ?thesis by blast
qed

theorem RemoveChildren_idempotent_witness:
  "children sample 0 = [Some 1, Some 2] \<and>
   (\<exists>h1 h2. RemoveChildren (Some 0) sample = Inr h1 \<and> children h1 0 = [] \<and>
            only_Child_changed 0 sample h1 \<and>
            RemoveChildren (Some 0) h1 = Inr h2 \<and> children h2 0 = [] \<and>
            only_Child_changed 0 h1 h2)"
proof -
  have c: "children sample 0 = [Some 1, Some 2]"
    by (simp add: sample_def children_def elems_def)
  have "0 < length (nodes sample)"
    by (simp add: sample_def)
  from RemoveChildren_idempotent [OF this] c show ?thesis by simp
qed

section \<open>Sequencing\<close>

lemma in_order_Nil: "in_order [] h = Inr h"
  by (simp add: in_order_def)

lemma foldl_Inl:
  "foldl (\<lambda>r step. case r of Inl e \<Rightarrow> Inl e | Inr h' \<Rightarrow> step h') (Inl e) steps = Inl e"
  by (induction steps) simp_all

lemma in_order_Cons:
  "in_order (step # steps) h =
     (case step h of Inl e \<Rightarrow> Inl e | Inr h' \<Rightarrow> in_order steps h')"
  by (cases "step h") (simp_all add: in_order_def foldl_Inl)

lemma DoAll_in_order: "DoAll fs n h = in_order (map (\<lambda>f. f n) fs) h"
  by (induction fs arbitrary: h) (simp_all add: in_order_Nil in_order_Cons split: sum.splits)

lemma Apply_loop_in_order: "Apply_loop f ms h = in_order (map f ms) h"
  by (induction ms arbitrary: h) (simp_all add: in_order_Nil in_order_Cons split: sum.splits)

lemma ForEach_loop_in_order:
  "ForEach_loop f1 ns n h = in_order (map (build_and_apply f1 n) ns) h"
  by (induction ns arbitrary: h)
    (simp_all add: in_order_Nil in_order_Cons build_and_apply_def split: sum.splits prod.splits)

section \<open>Replace on a node its parent does not list\<close>

lemma Replace_loop_no_match:
  "(\<And>j. i \<le> j \<Longrightarrow> j < i + k \<Longrightarrow> parrs h ! s_base r ! (s_off r + j) \<noteq> n) \<Longrightarrow>
   Replace_loop grow ns n p r k i h = Inr h"
  by (induction k arbitrary: i) simp_all

lemma nth_elems:
  "slice_ok arrs s \<Longrightarrow> j < s_len s \<Longrightarrow> elems arrs s ! j = arrs ! s_base s ! (s_off s + j)"
  by (auto simp: slice_ok_def elems_def)

text \<open>
  C10. When the parent P of N exists and the child list of P does not hold N, the
  operation of \<open>Replace ns\<close> applied to N returns without a panic and leaves the whole
  store, the child list of P with it, as it was.
\<close>

theorem Replace_not_listed:
  assumes "a < length (nodes h)" and "Parent (nodes h ! a) = Some p" and "p < length (nodes h)"
    and "slice_ok (parrs h) (Child (nodes h ! p))" and "Some a \<notin> set (children h p)"
  shows "Replace grow ns (Some a) h = Inr h"
proof -
  let ?r = "Child (nodes h ! p)"
  have "parrs h ! s_base ?r ! (s_off ?r + j) \<noteq> Some a" if "j < 0 + s_len ?r" for j
  proof -
    have "elems (parrs h) ?r ! j \<in> set (children h p)"
      using that assms(4) by (simp add: children_def length_elems)
    then show ?thesis
      using that assms(4,5) by (auto simp: nth_elems)
  qed
  then have "Replace_loop grow ns (Some a) p ?r (s_len ?r) 0 h = Inr h"
    by (intro Replace_loop_no_match)
  then show ?thesis
    using assms(1-3) by (simp add: Replace_def deref_def)
qed

theorem Replace_not_listed_witness:
  "Parent (nodes sample_detached ! 3) = Some 0 \<and>
   children sample_detached 0 = [Some 1, Some 2] \<and>
   Replace grow_double [Some 4] (Some 3) sample_detached = Inr sample_detached"
proof -
  let ?h = "sample_detached"
  have 1: "3 < length (nodes ?h)" "Parent (nodes ?h ! 3) = Some 0" "0 < length (nodes ?h)"
    by (simp_all add: sample_detached_def sample_def leaf_def)
  have 2: "slice_ok (parrs ?h) (Child (nodes ?h ! 0))"
    by (simp add: sample_detached_def sample_def slice_ok_def)
  have 3: "children ?h 0 = [Some 1, Some 2]"
    by (simp add: sample_detached_def sample_def children_def elems_def)
  then have 4: "Some 3 \<notin> set (children ?h 0)"
    by simp
  from Replace_not_listed [OF 1 2 4, of grow_double "[Some 4]"] 1 3 show ?thesis by simp
qed

section \<open>ForEach\<close>

text \<open>
  C8. With an argument that is of neither function type, \<open>ForEach\<close> panics and returns no
  operation. With an argument of either type it returns an operation that, applied to
  N, goes through the auxiliary nodes in order and for each builds the operation bound
  to that node (for the variadic type, to the list of that one node) and applies it to
  N at once.
\<close>

theorem ForEach_dispatch:
  "ForEach Other ns = Inl (Panic ''Wrong function type passed to ForEach'') \<and>
   ForEach (Unary f1) ns = Inr (\<lambda>n. in_order (map (build_and_apply f1 n) ns)) \<and>
   ForEach (Variadic fv) ns = Inr (\<lambda>n. in_order (map (build_and_apply (\<lambda>n2. fv [n2]) n) ns))"
  by (simp add: ForEach_def ForEach_loop_in_order fun_eq_iff)

section \<open>Apply\<close>

text \<open>
  C4. \<open>Apply\<close> runs the query on the store as it is now, applies the operation to the
  matched nodes in the order of the query, each on the store the one before left, and
  returns the Transformer it was called on; with no match it returns the store as it was.
\<close>

theorem Apply_in_order:
  assumes "Q sel (doc t) h = Inr ms"
  shows "Apply Q t f sel h =
           (case in_order (map f ms) h of Inl e \<Rightarrow> Inl e | Inr h' \<Rightarrow> Inr (t, h')) \<and>
         (ms = [] \<longrightarrow> Apply Q t f sel h = Inr (t, h))"
  using assms by (auto simp: Apply_def Apply_loop_in_order in_order_Nil)

theorem Apply_in_order_witness:
  "(\<exists>h'. Apply (\<lambda>sel d h. Inr [Some 0]) \<lparr>doc = None\<rparr> RemoveChildren [''ul''] sample =
           Inr (\<lparr>doc = None\<rparr>, h') \<and> children h' 0 = []) \<and>
   Apply (\<lambda>sel d h. Inr []) \<lparr>doc = None\<rparr> RemoveChildren [''ol''] sample =
     Inr (\<lparr>doc = None\<rparr>, sample)"
proof -
  have 1: "(\<lambda>sel d h. Inr [Some 0]) [''ul''] (doc \<lparr>doc = None\<rparr>) sample = Inr [Some 0]"
    and 2: "(\<lambda>sel d h. Inr []) [''ol''] (doc \<lparr>doc = None\<rparr>) sample = Inr []"
    by simp_all
  have "0 < length (nodes sample)"
    by (simp add: sample_def)
  from RemoveChildren_once [OF this]
  obtain h' where h': "RemoveChildren (Some 0) sample = Inr h'" "children h' 0 = []"
    by blast
  from Apply_in_order [OF 1, where f = RemoveChildren]
    Apply_in_order [OF 2, where f = RemoveChildren] h'
  show ?thesis
    by (simp add: in_order_Cons in_order_Nil)
qed

section \<open>ModifyAttrib\<close>

lemma store_at_single:
  "s_base s < length arrs \<Longrightarrow> s_off s + k < length (arrs ! s_base s) \<Longrightarrow>
   store_at arrs s k [x] = arrs[s_base s := (arrs ! s_base s)[s_off s + k := x]]"
  by (simp add: store_at_def upd_conv_take_nth_drop Let_def)

lemma ModifyAttrib_loop_result:
  assumes "Attr (nodes h ! a) = r" and "s_base r < length (aarrs h)"
    and "s_off r + i + k \<le> length (aarrs h ! s_base r)" and "i + k \<le> s_len r"
  shows "\<exists>arr'. ModifyAttrib_loop key val a r k i found h =
           Inr (found \<or> (\<exists>j. i \<le> j \<and> j < i + k \<and> Key (aarrs h ! s_base r ! (s_off r + j)) = key),
                h\<lparr>aarrs := (aarrs h)[s_base r := arr']\<rparr>) \<and>
         length arr' = length (aarrs h ! s_base r) \<and>
         (\<forall>j < length arr'. arr' ! j =
            (if s_off r + i \<le> j \<and> j < s_off r + i + k
             then set_Val key val (aarrs h ! s_base r ! j) else aarrs h ! s_base r ! j))"
  using assms
proof (induction k arbitrary: i found h)
  case 0
  show ?case
    by (rule exI [of _ "aarrs h ! s_base r"]) auto
next
  case (Suc k)
  let ?arr = "aarrs h ! s_base r"
  let ?at = "?arr ! (s_off r + i)"
  show ?case
  proof (cases "Key ?at = key")
    case False
    from Suc.IH [of h "Suc i" found] Suc.prems
    obtain arr' where 1: "ModifyAttrib_loop key val a r k (Suc i) found h =
           Inr (found \<or> (\<exists>j. Suc i \<le> j \<and> j < Suc i + k \<and> Key (?arr ! (s_off r + j)) = key),
                h\<lparr>aarrs := (aarrs h)[s_base r := arr']\<rparr>)"
      and 2: "length arr' = length ?arr"
      and 3: "\<forall>j < length arr'. arr' ! j =
            (if s_off r + Suc i \<le> j \<and> j < s_off r + Suc i + k
             then set_Val key val (?arr ! j) else ?arr ! j)"
      by auto
    have 4: "(\<exists>j. Suc i \<le> j \<and> j < Suc i + k \<and> Key (?arr ! (s_off r + j)) = key) \<longleftrightarrow>
             (\<exists>j. i \<le> j \<and> j < i + Suc k \<and> Key (?arr ! (s_off r + j)) = key)"
      using False by (metis Suc_leD Suc_leI add_Suc add_Suc_right le_neq_implies_less)
    have 5: "\<forall>j < length arr'. arr' ! j =
            (if s_off r + i \<le> j \<and> j < s_off r + i + Suc k
             then set_Val key val (?arr ! j) else ?arr ! j)"
      using 3 False by (auto simp: set_Val_def le_less Suc_le_eq)
    show ?thesis
      apply (rule exI [of _ arr'])
      using False 1 2 4 5 by simp
  next
    case True
    let ?h1 = "h\<lparr>aarrs := (aarrs h)[s_base r := ?arr[s_off r + i := ?at\<lparr>Val := val\<rparr>]]\<rparr>"
    have st: "set_index (aarrs h) r i (?at\<lparr>Val := val\<rparr>) = Inr (aarrs ?h1)"
      using Suc.prems by (simp add: set_index_def store_at_single)
    have p1: "Attr (nodes ?h1 ! a) = r" "s_base r < length (aarrs ?h1)"
      "s_off r + Suc i + k \<le> length (aarrs ?h1 ! s_base r)" "Suc i + k \<le> s_len r"
      using Suc.prems by simp_all
    have arr1: "aarrs ?h1 ! s_base r = ?arr[s_off r + i := ?at\<lparr>Val := val\<rparr>]"
      using Suc.prems by simp
    from Suc.IH [OF p1, of True]
    obtain arr' where 1: "ModifyAttrib_loop key val a r k (Suc i) True ?h1 =
           Inr (True, ?h1\<lparr>aarrs := (aarrs ?h1)[s_base r := arr']\<rparr>)"
      and 2: "length arr' = length ?arr"
      and 3: "\<forall>j < length arr'. arr' ! j =
            (if s_off r + Suc i \<le> j \<and> j < s_off r + Suc i + k
             then set_Val key val (?arr[s_off r + i := ?at\<lparr>Val := val\<rparr>] ! j)
             else ?arr[s_off r + i := ?at\<lparr>Val := val\<rparr>] ! j)"
      unfolding arr1 by auto
    have 5: "\<forall>j < length arr'. arr' ! j =
            (if s_off r + i \<le> j \<and> j < s_off r + i + Suc k
             then set_Val key val (?arr ! j) else ?arr ! j)"
      using 3 True 2 by (auto simp: set_Val_def nth_list_update le_less Suc_le_eq)
    have 6: "(\<exists>j. i \<le> j \<and> j < i + Suc k \<and> Key (?arr ! (s_off r + j)) = key)"
      using True by (intro exI [of _ i]) simp
    show ?thesis
      apply (rule exI [of _ arr'])
      using True 1 2 5 6 st Suc.prems(1) by simp
  qed
qed

lemma take_Cons_replicate: "take n (x # replicate n x) = replicate n x"
  by (induction n) simp_all

lemma exists_attr_iff:
  assumes "slice_ok arrs r"
  shows "(\<exists>at\<in>set (elems arrs r). P at) \<longleftrightarrow> (\<exists>j<s_len r. P (arrs ! s_base r ! (s_off r + j)))"
proof -
  have "(\<exists>at\<in>set (elems arrs r). P at) \<longleftrightarrow> (\<exists>j<length (elems arrs r). P (elems arrs r ! j))"
    by (metis in_set_conv_nth)
  also have "\<dots> \<longleftrightarrow> (\<exists>j<s_len r. P (arrs ! s_base r ! (s_off r + j)))"
    using assms by (auto simp: length_elems nth_elems)
  finally show ?thesis .
qed

lemma ModifyAttrib_result:
  assumes a: "a < length (nodes h)" and ok: "slice_ok (aarrs h) (Attr (nodes h ! a))"
  shows "\<exists>h'. ModifyAttrib key val (Some a) h = Inr h' \<and>
           length (nodes h') = length (nodes h) \<and>
           slice_ok (aarrs h') (Attr (nodes h' ! a)) \<and>
           attributes h' a =
             (if \<exists>at\<in>set (attributes h a). Key at = key
              then map (set_Val key val) (attributes h a)
              else replicate (length (attributes h a)) zero_attr @ [\<lparr>Key = key, Val = val\<rparr>])"
proof (cases "s_len (Attr (nodes h ! a)) = 0")
  case True
  then show ?thesis
    using a
    by (simp add: ModifyAttrib_def deref_def go_make_def set_index_def store_at_def
        set_Attr_def attributes_def elems_def slice_ok_def)
next
  case False
  let ?r = "Attr (nodes h ! a)"
  let ?arr = "aarrs h ! s_base ?r"
  from False ok have b: "s_base ?r < length (aarrs h)"
    and rng: "s_off ?r + s_len ?r \<le> length ?arr"
    by (auto simp: slice_ok_def)
  from ModifyAttrib_loop_result [of h a ?r 0 "s_len ?r" key val False] b rng
  obtain arr' where 1: "ModifyAttrib_loop key val a ?r (s_len ?r) 0 False h =
           Inr (\<exists>j<s_len ?r. Key (?arr ! (s_off ?r + j)) = key,
                h\<lparr>aarrs := (aarrs h)[s_base ?r := arr']\<rparr>)"
    and 2: "length arr' = length ?arr"
    and 3: "\<forall>j < length arr'. arr' ! j =
            (if s_off ?r \<le> j \<and> j < s_off ?r + s_len ?r
             then set_Val key val (?arr ! j) else ?arr ! j)"
    by auto
  have fnd: "(\<exists>at\<in>set (attributes h a). Key at = key) \<longleftrightarrow>
             (\<exists>j<s_len ?r. Key (?arr ! (s_off ?r + j)) = key)"
    unfolding attributes_def using ok by (rule exists_attr_iff)
  have len: "length (attributes h a) = s_len ?r"
    unfolding attributes_def using ok by (rule length_elems)
  show ?thesis
  proof (cases "\<exists>j<s_len ?r. Key (?arr ! (s_off ?r + j)) = key")
    case True
    let ?h' = "h\<lparr>aarrs := (aarrs h)[s_base ?r := arr']\<rparr>"
    have res: "ModifyAttrib key val (Some a) h = Inr ?h'"
      using a 1 True by (simp add: ModifyAttrib_def deref_def)
    have ok': "slice_ok (aarrs ?h') (Attr (nodes ?h' ! a))"
      using ok b 2 by (simp add: slice_ok_def)
    have "attributes ?h' a = map (set_Val key val) (attributes h a)"
    proof (rule nth_equalityI)
      show "length (attributes ?h' a) = length (map (set_Val key val) (attributes h a))"
        using len ok' by (simp add: attributes_def length_elems)
      fix j assume "j < length (attributes ?h' a)"
      then have j: "j < s_len ?r"
        using ok' by (simp add: attributes_def length_elems)
      then show "attributes ?h' a ! j = map (set_Val key val) (attributes h a) ! j"
        using rng b 2 3 len by (simp add: attributes_def elems_def)
    qed
    with res ok' fnd True show ?thesis
      by (intro exI [of _ ?h']) simp
  next
    case nf: False
    let ?h1 = "h\<lparr>aarrs := (aarrs h)[s_base ?r := arr']\<rparr>"
    let ?h' = "set_Attr a \<lparr>s_base = length (aarrs h), s_off = 0, s_len = s_len ?r + 1,
                  s_cap = s_len ?r + 1\<rparr>
                (?h1\<lparr>aarrs := aarrs ?h1 @ [replicate (s_len ?r) zero_attr @ [\<lparr>Key = key, Val = val\<rparr>]]\<rparr>)"
    have res: "ModifyAttrib key val (Some a) h = Inr ?h'"
      using a 1 nf
      by (simp add: ModifyAttrib_def deref_def go_make_def set_index_def store_at_def
          Let_def take_Cons_replicate)
    have "attributes ?h' a = replicate (s_len ?r) zero_attr @ [\<lparr>Key = key, Val = val\<rparr>]"
      using a by (simp add: set_Attr_def attributes_def elems_def nth_append)
    moreover have "slice_ok (aarrs ?h') (Attr (nodes ?h' ! a))"
      using a by (simp add: set_Attr_def slice_ok_def nth_append)
    moreover have "length (nodes ?h') = length (nodes h)"
      by (simp add: set_Attr_def)
    ultimately show ?thesis
      using res fnd nf len by (intro exI [of _ ?h']) simp
  qed
qed

text \<open>
  C1, at the node 0 of the sample store, whose only attribute is \<^verbatim>\<open>class="x"\<close>: the
  operation of \<open>ModifyAttrib ''id'' ''z''\<close> finds no entry with the key and leaves the
  attribute list with an empty entry in the place of \<^verbatim>\<open>class="x"\<close>, followed by
  \<^verbatim>\<open>id="z"\<close>. The new array is made of zero values and the old entries are not copied
  into it.
\<close>

theorem ModifyAttrib_insert_loses_attributes:
  "attributes sample 0 = [\<lparr>Key = ''class'', Val = ''x''\<rparr>] \<and>
   (\<exists>h'. ModifyAttrib ''id'' ''z'' (Some 0) sample = Inr h' \<and>
         attributes h' 0 = [\<lparr>Key = [], Val = []\<rparr>, \<lparr>Key = ''id'', Val = ''z''\<rparr>])"
proof -
  have at: "attributes sample 0 = [\<lparr>Key = ''class'', Val = ''x''\<rparr>]"
    by (simp add: sample_def attributes_def elems_def)
  have "0 < length (nodes sample)" and "slice_ok (aarrs sample) (Attr (nodes sample ! 0))"
    by (simp_all add: sample_def slice_ok_def)
  from ModifyAttrib_result [OF this, of "''id''" "''z''"] at
  show ?thesis by (auto simp: zero_attr_def)
qed

section \<open>DoAll\<close>

lemma Key_set_Val: "Key (set_Val key val at) = Key at"
  by (simp add: set_Val_def)

lemma ModifyAttrib_then_key:
  assumes "a < length (nodes h)" and "slice_ok (aarrs h) (Attr (nodes h ! a))"
  shows "\<exists>h'. ModifyAttrib key val (Some a) h = Inr h' \<and>
           length (nodes h') = length (nodes h) \<and>
           slice_ok (aarrs h') (Attr (nodes h' ! a)) \<and>
           (\<exists>at\<in>set (attributes h' a). Key at = key) \<and>
           ((\<exists>at\<in>set (attributes h a). Key at = key) \<longrightarrow>
            (\<forall>at\<in>set (attributes h' a). Key at = key \<longrightarrow> Val at = val))"
proof -
  from ModifyAttrib_result [OF assms, of key val]
  obtain h' where h': "ModifyAttrib key val (Some a) h = Inr h'"
      "length (nodes h') = length (nodes h)" "slice_ok (aarrs h') (Attr (nodes h' ! a))"
    and at: "attributes h' a =
             (if \<exists>at\<in>set (attributes h a). Key at = key
              then map (set_Val key val) (attributes h a)
              else replicate (length (attributes h a)) zero_attr @ [\<lparr>Key = key, Val = val\<rparr>])"
    by blast
  have "(\<exists>at\<in>set (attributes h' a). Key at = key) \<and>
        ((\<exists>at\<in>set (attributes h a). Key at = key) \<longrightarrow>
         (\<forall>at\<in>set (attributes h' a). Key at = key \<longrightarrow> Val at = val))"
  proof (cases "\<exists>at\<in>set (attributes h a). Key at = key")
    case True
    with at show ?thesis
      by (auto simp: Key_set_Val) (auto simp: set_Val_def)
  next
    case False
    with at show ?thesis
      by auto
  qed
  with h' show ?thesis by blast
qed

text \<open>
  C7. The operation of \<open>DoAll fs\<close> applied to N is the run of the operations of \<open>fs\<close> in
  the order given, each applied to N on the store the one before left. So \<open>DoAll\<close> of an
  operation that sets an attribute to \<open>x\<close> and then one that sets it to \<open>y\<close> leaves the
  attribute present and equal to \<open>y\<close> in every entry of that key.
\<close>

theorem DoAll_applies_in_order:
  assumes "a < length (nodes h)" and "slice_ok (aarrs h) (Attr (nodes h ! a))"
  shows "DoAll fs n h = in_order (map (\<lambda>f. f n) fs) h \<and>
         (\<exists>h2. DoAll [ModifyAttrib key x, ModifyAttrib key y] (Some a) h = Inr h2 \<and>
               (\<exists>at\<in>set (attributes h2 a). Key at = key) \<and>
               (\<forall>at\<in>set (attributes h2 a). Key at = key \<longrightarrow> Val at = y))"
proof -
  from ModifyAttrib_then_key [OF assms, of key x]
  obtain h1 where 1: "ModifyAttrib key x (Some a) h = Inr h1"
      "length (nodes h1) = length (nodes h)" "slice_ok (aarrs h1) (Attr (nodes h1 ! a))"
      "\<exists>at\<in>set (attributes h1 a). Key at = key"
    by blast
  then have "a < length (nodes h1)"
    using assms(1) by simp
  from ModifyAttrib_then_key [OF this 1(3), of key y] 1(4)
  obtain h2 where 2: "ModifyAttrib key y (Some a) h1 = Inr h2"
      "\<exists>at\<in>set (attributes h2 a). Key at = key"
      "\<forall>at\<in>set (attributes h2 a). Key at = key \<longrightarrow> Val at = y"
    by blast
  have "DoAll [ModifyAttrib key x, ModifyAttrib key y] (Some a) h = Inr h2"
    using 1(1) 2(1) by simp
  with 2 show ?thesis
    by (simp add: DoAll_in_order)
qed

theorem DoAll_applies_in_order_witness:
  "attributes sample 0 = [\<lparr>Key = ''class'', Val = ''x''\<rparr>] \<and>
   DoAll [RemoveChildren, AppendChildren [Some 3]] (Some 0) sample =
     in_order [RemoveChildren (Some 0), AppendChildren [Some 3] (Some 0)] sample \<and>
   (\<exists>h2. DoAll [ModifyAttrib ''class'' ''X'', ModifyAttrib ''class'' ''Y''] (Some 0) sample = Inr h2 \<and>
         (\<exists>at\<in>set (attributes h2 0). Key at = ''class'') \<and>
         (\<forall>at\<in>set (attributes h2 0). Key at = ''class'' \<longrightarrow> Val at = ''Y''))"
proof -
  have at: "attributes sample 0 = [\<lparr>Key = ''class'', Val = ''x''\<rparr>]"
    by (simp add: sample_def attributes_def elems_def)
  have "0 < length (nodes sample)" and "slice_ok (aarrs sample) (Attr (nodes sample ! 0))"
    by (simp_all add: sample_def slice_ok_def)
  from DoAll_applies_in_order [OF this,
      of "[RemoveChildren, AppendChildren [Some 3]]" "Some 0" "''class''" "''X''" "''Y''"] at
  show ?thesis by simp
qed

section \<open>Replace on a node its parent lists\<close>

lemma nat_int_pred: "nat (int i - 1) = i - Suc 0"
  by simp

lemma go_append_in_place:
  "s_len s + length xs \<le> s_cap s \<Longrightarrow>
   go_append grow z s xs arrs =
     (s\<lparr>s_len := s_len s + length xs\<rparr>,
      arrs[s_base s := take (s_off s + s_len s) (arrs ! s_base s) @ xs @
                        drop (s_off s + s_len s + length xs) (arrs ! s_base s)])"
  by (simp add: go_append_def store_at_def Let_def)

lemma go_append_fresh:
  "s_cap s < s_len s + length xs \<Longrightarrow>
   go_append grow z s xs arrs =
     (\<lparr>s_base = length arrs, s_off = 0, s_len = s_len s + length xs,
       s_cap = max (s_len s + length xs) (grow (s_cap s) (s_len s + length xs))\<rparr>,
      arrs @ [elems arrs s @ xs @
              replicate (max (s_len s + length xs) (grow (s_cap s) (s_len s + length xs)) -
                         (s_len s + length xs)) z])"
  by (simp add: go_append_def Let_def)

lemma length_window_write:
  "k + length xs \<le> length A \<Longrightarrow> length (take k A @ xs @ drop (k + length xs) A) = length A"
  by simp

lemma window_write:
  assumes "ofs + l + length xs \<le> length A"
  shows "take (l + length xs) (drop ofs (take (ofs + l) A @ xs @ drop (ofs + l + length xs) A)) =
         take l (drop ofs A) @ xs"
proof -
  have 1: "length (take (ofs + l) A) = ofs + l"
    using assms by simp
  have 2: "drop ofs (take (ofs + l) A) = take l (drop ofs A)"
    by (simp add: drop_take)
  have 3: "length (take l (drop ofs A)) = l"
    using assms by simp
  have "drop ofs (take (ofs + l) A @ xs @ drop (ofs + l + length xs) A) =
        take l (drop ofs A) @ xs @ drop (ofs + l + length xs) A"
    using 1 2 by simp
  then show ?thesis
    using 3 by simp
qed

lemma go_append_elems:
  assumes "slice_ok arrs s"
  shows "elems (snd (go_append grow z s xs arrs)) (fst (go_append grow z s xs arrs)) =
           elems arrs s @ xs \<and>
         slice_ok (snd (go_append grow z s xs arrs)) (fst (go_append grow z s xs arrs))"
proof (cases "s_len s + length xs \<le> s_cap s")
  case False
  then have f: "s_cap s < s_len s + length xs" by simp
  show ?thesis
    unfolding go_append_fresh [OF f]
    using length_elems [OF assms] by (simp add: elems_def slice_ok_def)
next
  case True
  show ?thesis
  proof (cases "xs = []")
    case True
    then show ?thesis
      using assms \<open>s_len s + length xs \<le> s_cap s\<close>
      by (cases "s_base s < length arrs")
        (simp_all add: go_append_in_place elems_def slice_ok_def)
  next
    case False
    with True have c: "0 < s_cap s" by (cases xs) auto
    with assms have b: "s_base s < length arrs"
      and rng: "s_off s + s_cap s \<le> length (arrs ! s_base s)"
      by (auto simp: slice_ok_def)
    show ?thesis
      unfolding go_append_in_place [OF True]
      using b rng True
      by (simp add: elems_def slice_ok_def window_write length_window_write
          del: append_assoc take_append drop_append length_append length_take length_drop)
  qed
qed

lemma Replace_step_children:
  fixes grow :: "nat \<Rightarrow> nat \<Rightarrow> nat" and ns :: "ptr list" and h :: heap and p i :: nat
  assumes p: "p < length (nodes h)" and ok: "slice_ok (parrs h) (Child (nodes h ! p))"
    and i: "i < s_len (Child (nodes h ! p))"
  defines "r \<equiv> Child (nodes h ! p)"
  defines "post \<equiv> \<lparr>s_base = s_base r, s_off = s_off r + (i + 1), s_len = s_len r - (i + 1),
                     s_cap = s_cap r - (i + 1)\<rparr>"
  defines "na \<equiv> go_append grow None (r\<lparr>s_len := i - 1\<rparr>) ns (parrs h)"
  defines "nb \<equiv> go_append grow None (fst na) (elems (snd na) post) (snd na)"
  shows "Replace_step grow ns p i h = Inr (set_Child p (fst nb) (h\<lparr>parrs := snd nb\<rparr>)) \<and>
         children (set_Child p (fst nb) (h\<lparr>parrs := snd nb\<rparr>)) p =
           take (i - 1) (children h p) @ ns @ elems (snd na) post"
proof -
  have lc: "s_len r \<le> s_cap r"
    using ok by (simp add: slice_ok_def r_def)
  have step: "Replace_step grow ns p i h = Inr (set_Child p (fst nb) (h\<lparr>parrs := snd nb\<rparr>))"
    using i lc
    by (auto simp add: Replace_step_def slice_to_def slice_from_def nat_int_pred Let_def
        split_def nb_def na_def post_def r_def)
  have okpre: "slice_ok (parrs h) (r\<lparr>s_len := i - 1\<rparr>)"
    using ok i lc by (auto simp add: slice_ok_def r_def)
  have pre: "elems (parrs h) (r\<lparr>s_len := i - 1\<rparr>) = take (i - 1) (children h p)"
    using i by (simp add: elems_def children_def r_def min_def)
  from go_append_elems [OF okpre, of grow None ns]
  have a: "elems (snd na) (fst na) = take (i - 1) (children h p) @ ns"
    and oka: "slice_ok (snd na) (fst na)"
    unfolding na_def pre by blast+
  from go_append_elems [OF oka, of grow None "elems (snd na) post"]
  have b: "elems (snd nb) (fst nb) = (take (i - 1) (children h p) @ ns) @ elems (snd na) post"
    unfolding nb_def a by blast
  have "children (set_Child p (fst nb) (h\<lparr>parrs := snd nb\<rparr>)) p = elems (snd nb) (fst nb)"
    using p by (simp add: children_def set_Child_def)
  with step b show ?thesis by simp
qed

lemma drop_window_write:
  assumes "k + length xs \<le> d" and "d \<le> length A"
  shows "drop d (take k A @ xs @ drop (k + length xs) A) = drop d A"
proof -
  have k: "length (take k A) = k"
    using assms by simp
  have "drop d (take k A @ xs @ drop (k + length xs) A) =
        drop (d - k) (xs @ drop (k + length xs) A)"
    using assms k by (simp del: length_take)
  also have "\<dots> = drop (d - k - length xs) (drop (k + length xs) A)"
    using assms by simp
  also have "\<dots> = drop d A"
    using assms by simp
  finally show ?thesis .
qed

lemma nth_window_write:
  assumes "k + length xs \<le> d" and "d < length A"
  shows "(take k A @ xs @ drop (k + length xs) A) ! d = A ! d"
proof -
  have k: "length (take k A) = k"
    using assms by simp
  have "(take k A @ xs @ drop (k + length xs) A) ! d =
        (xs @ drop (k + length xs) A) ! (d - k)"
    using assms k by (simp add: nth_append del: length_take)
  also have "\<dots> = drop (k + length xs) A ! (d - k - length xs)"
  proof -
    have "\<not> d - k < length xs"
      using assms by arith
    then show ?thesis
      by (simp add: nth_append)
  qed
  also have "\<dots> = A ! d"
    using assms by simp
  finally show ?thesis .
qed

lemma tail_of_window:
  "take (l - (i + 1)) (drop (ofs + (i + 1)) A) = drop (i + 1) (take l (drop ofs A))"
  by (simp add: drop_take add.commute)

lemma Replace_tail:
  fixes grow :: "nat \<Rightarrow> nat \<Rightarrow> nat" and ns :: "ptr list" and P :: "ptr list list"
  assumes ok: "slice_ok P r" and i: "i < s_len r"
    and nc: "s_cap r < i - 1 + length ns \<or> i - 1 + length ns \<le> i + 1 \<or> i + 1 = s_len r"
  defines "post \<equiv> \<lparr>s_base = s_base r, s_off = s_off r + (i + 1), s_len = s_len r - (i + 1),
                     s_cap = s_cap r - (i + 1)\<rparr>"
  defines "na \<equiv> go_append grow None (r\<lparr>s_len := i - 1\<rparr>) ns P"
  defines "nb \<equiv> go_append grow None (fst na) (elems (snd na) post) (snd na)"
  shows "elems (snd na) post = drop (i + 1) (elems P r) \<and>
         (\<forall>j. i < j \<and> j < s_len r \<longrightarrow>
              snd nb ! s_base r ! (s_off r + j) \<in> set (drop (i + 1) (elems P r)))"
proof -
  let ?A = "P ! s_base r"
  let ?old = "elems P r"
  have b: "s_base r < length P" and rng: "s_off r + s_cap r \<le> length ?A"
    and lc: "s_len r \<le> s_cap r"
    using ok i by (auto simp: slice_ok_def)
  have lold: "length ?old = s_len r"
    using ok by (rule length_elems)
  have postA: "take (s_len r - (i + 1)) (drop (s_off r + (i + 1)) ?A) = drop (i + 1) ?old"
    unfolding elems_def by (rule tail_of_window)
  have inold: "?A ! (s_off r + j) \<in> set (drop (i + 1) ?old)" if "i < j" "j < s_len r" for j
  proof -
    have "?old ! j = ?A ! (s_off r + j)"
      using that ok by (simp add: nth_elems)
    moreover have "?old ! j = drop (i + 1) ?old ! (j - (i + 1))"
      using that lold by simp
    moreover have "j - (i + 1) < length (drop (i + 1) ?old)"
      using that lold by simp
    ultimately show ?thesis
      by (metis nth_mem)
  qed
  show ?thesis
  proof (cases "s_cap r < i - 1 + length ns")
    case True
    then have na: "na = (\<lparr>s_base = length P, s_off = 0, s_len = i - 1 + length ns,
        s_cap = max (i - 1 + length ns) (grow (s_cap r) (i - 1 + length ns))\<rparr>,
      P @ [elems P (r\<lparr>s_len := i - 1\<rparr>) @ ns @
              replicate (max (i - 1 + length ns) (grow (s_cap r) (i - 1 + length ns)) -
                         (i - 1 + length ns)) None])"
      unfolding na_def by (simp add: go_append_fresh)
    have 1: "elems (snd na) post = drop (i + 1) ?old"
      using b postA by (simp add: na elems_def post_def nth_append)
    have "snd nb ! s_base r = ?A"
    proof (cases "s_len (fst na) + length (elems (snd na) post) \<le> s_cap (fst na)")
      case True
      show ?thesis
        unfolding nb_def go_append_in_place [OF True]
        using b by (simp add: na nth_append)
    next
      case False
      then have "s_cap (fst na) < s_len (fst na) + length (elems (snd na) post)"
        by simp
      then show ?thesis
        unfolding nb_def using b by (simp add: go_append_fresh na nth_append)
    qed
    with 1 inold show ?thesis by simp
  next
    case False
    then have inp: "s_len (r\<lparr>s_len := i - 1\<rparr>) + length ns \<le> s_cap (r\<lparr>s_len := i - 1\<rparr>)"
      by simp
    let ?m = "i - 1"
    let ?A1 = "take (s_off r + ?m) ?A @ ns @ drop (s_off r + ?m + length ns) ?A"
    have na: "na = (r\<lparr>s_len := ?m + length ns\<rparr>, P[s_base r := ?A1])"
      unfolding na_def go_append_in_place [OF inp] by simp
    have lA1: "length ?A1 = length ?A"
      using False rng by (intro length_window_write) simp
    show ?thesis
    proof (cases "i + 1 = s_len r")
      case True
      then show ?thesis
        using lold by (simp add: elems_def post_def)
    next
      case ne: False
      with nc False have small: "?m + length ns \<le> i + 1"
        by simp
      have dA1: "drop (s_off r + (i + 1)) ?A1 = drop (s_off r + (i + 1)) ?A"
        using small i lc rng by (intro drop_window_write) simp_all
      have "elems (snd na) post =
            take (s_len r - (i + 1)) (drop (s_off r + (i + 1)) ?A1)"
        using b by (simp add: na elems_def post_def)
      then have 1: "elems (snd na) post = drop (i + 1) ?old"
        unfolding dA1 postA .
      let ?pe = "drop (i + 1) ?old"
      have lpe: "length ?pe = s_len r - (i + 1)"
        using lold by simp
      have "s_len (fst na) = ?m + length ns" and "s_cap (fst na) = s_cap r"
        by (simp_all add: na)
      then have inp2: "s_len (fst na) + length (elems (snd na) post) \<le> s_cap (fst na)"
        unfolding 1 lpe using small i lc by simp
      let ?q = "s_off r + ?m + length ns"
      let ?A2 = "take ?q ?A1 @ ?pe @ drop (?q + length ?pe) ?A1"
      have nb: "snd nb ! s_base r = ?A2"
      proof -
        have "snd nb = (snd na)[s_base (fst na) :=
                 take (s_off (fst na) + s_len (fst na)) (snd na ! s_base (fst na)) @ ?pe @
                 drop (s_off (fst na) + s_len (fst na) + length ?pe) (snd na ! s_base (fst na))]"
          unfolding nb_def 1 using inp2 [unfolded 1] by (simp add: go_append_in_place)
        then show ?thesis
          using b by (simp add: na add.assoc)
      qed
      have "?A2 ! (s_off r + j) \<in> set ?pe" if j: "i < j" "j < s_len r" for j
      proof -
        have lq: "length (take ?q ?A1) = ?q"
          using lA1 False rng by simp
        have ge: "?q \<le> s_off r + j"
          using small j by simp
        show ?thesis
        proof (cases "s_off r + j - ?q < length ?pe")
          case True
          have "?A2 ! (s_off r + j) = ?pe ! (s_off r + j - ?q)"
            using ge True lq
            by (simp add: nth_append del: take_append drop_append append_assoc length_take
                length_drop length_append)
          then show ?thesis
            using True by (metis nth_mem)
        next
          case False
          have "?q + length ?pe \<le> s_off r + j"
            using False ge by simp
          moreover have "s_off r + j < length ?A1"
            using j lc rng lA1 by simp
          ultimately have "?A2 ! (s_off r + j) = ?A1 ! (s_off r + j)"
            using lq by (intro nth_window_write) 
          also have "\<dots> = ?A ! (s_off r + j)"
            using ge j lc rng by (intro nth_window_write) simp_all
          finally show ?thesis
            using inold [OF j] by simp
        qed
      qed
      with 1 nb show ?thesis by simp
    qed
  qed
qed

lemma Replace_loop_skip:
  "(\<And>j. i \<le> j \<Longrightarrow> j < i + k1 \<Longrightarrow> parrs h ! s_base r ! (s_off r + j) \<noteq> n) \<Longrightarrow>
   Replace_loop grow ns n p r (k1 + k2) i h = Replace_loop grow ns n p r k2 (i + k1) h"
proof (induction k1 arbitrary: i)
  case 0
  show ?case by simp
next
  case (Suc k1)
  have "parrs h ! s_base r ! (s_off r + i) \<noteq> n"
    using Suc.prems [of i] by simp
  moreover have "Replace_loop grow ns n p r (k1 + k2) (Suc i) h =
      Replace_loop grow ns n p r k2 (Suc i + k1) h"
    using Suc.prems by (intro Suc.IH) simp_all
  ultimately show ?case by simp
qed

lemma Replace_loop_fire:
  assumes "parrs h ! s_base r ! (s_off r + i) = n" and "Replace_step grow ns p i h = Inr h1"
    and "\<And>j. Suc i \<le> j \<Longrightarrow> j < Suc i + k \<Longrightarrow> parrs h1 ! s_base r ! (s_off r + j) \<noteq> n"
  shows "Replace_loop grow ns n p r (Suc k) i h = Inr h1"
  using assms(1,2) Replace_loop_no_match [of "Suc i" k h1 r n grow ns p, OF assms(3)]
  by simp

text \<open>
  C2, as amended. Let N occur exactly once, at index \<open>i\<close>, in the child list of its
  parent P, and let the replacements not reach the kept tail inside the backing array of
  P: either they do not fit the capacity any more, so that \<^verbatim>\<open>append\<close> allocates, or they
  end at or before position \<open>i + 1\<close>, or N is the last child. Then the operation of
  \<open>Replace ns\<close> applied to N leaves P with the old children before position
  \<open>max (i - 1) 0\<close>, then \<open>ns\<close>, then the old children from position \<open>i + 1\<close> on: N and,
  for \<open>i \<ge> 1\<close>, the sibling before it are gone, and the element at \<open>i + 1\<close> stays.
\<close>

theorem Replace_splice:
  fixes grow :: "nat \<Rightarrow> nat \<Rightarrow> nat" and ns :: "ptr list"
  assumes a: "a < length (nodes h)" and par: "Parent (nodes h ! a) = Some p"
    and p: "p < length (nodes h)" and ok: "slice_ok (parrs h) (Child (nodes h ! p))"
    and i: "i < length (children h p)" and at: "children h p ! i = Some a"
    and before: "Some a \<notin> set (take i (children h p))"
    and after: "Some a \<notin> set (drop (i + 1) (children h p))"
    and nc: "s_cap (Child (nodes h ! p)) < i - 1 + length ns \<or> i - 1 + length ns \<le> i + 1 \<or>
             i + 1 = length (children h p)"
  shows "\<exists>h'. Replace grow ns (Some a) h = Inr h' \<and>
           children h' p = take (i - 1) (children h p) @ ns @ drop (i + 1) (children h p)"
proof -
  let ?r = "Child (nodes h ! p)"
  let ?old = "children h p"
  define post where "post = \<lparr>s_base = s_base ?r, s_off = s_off ?r + (i + 1),
      s_len = s_len ?r - (i + 1), s_cap = s_cap ?r - (i + 1)\<rparr>"
  define na where "na = go_append grow None (?r\<lparr>s_len := i - 1\<rparr>) ns (parrs h)"
  define nb where "nb = go_append grow None (fst na) (elems (snd na) post) (snd na)"
  define h1 where "h1 = set_Child p (fst nb) (h\<lparr>parrs := snd nb\<rparr>)"
  have L: "length ?old = s_len ?r"
    unfolding children_def using ok by (rule length_elems)
  have il: "i < s_len ?r"
    using i L by simp
  have nth: "?old ! j = parrs h ! s_base ?r ! (s_off ?r + j)" if "j < s_len ?r" for j
    unfolding children_def using ok that by (rule nth_elems)
  from Replace_step_children [OF p ok il, of grow ns]
  have step: "Replace_step grow ns p i h = Inr h1"
    and ch: "children h1 p = take (i - 1) ?old @ ns @ elems (snd na) post"
    unfolding h1_def nb_def na_def post_def by blast+
  have nc': "s_cap ?r < i - 1 + length ns \<or> i - 1 + length ns \<le> i + 1 \<or> i + 1 = s_len ?r"
    using nc L by simp
  have "elems (snd na) post = drop (i + 1) (elems (parrs h) ?r) \<and>
        (\<forall>j. i < j \<and> j < s_len ?r \<longrightarrow>
             snd nb ! s_base ?r ! (s_off ?r + j) \<in> set (drop (i + 1) (elems (parrs h) ?r)))"
    unfolding nb_def na_def post_def by (rule Replace_tail [OF ok il nc'])
  then have tl: "elems (snd na) post = drop (i + 1) ?old"
    and rest: "\<And>j. i < j \<Longrightarrow> j < s_len ?r \<Longrightarrow>
                 snd nb ! s_base ?r ! (s_off ?r + j) \<in> set (drop (i + 1) ?old)"
    unfolding children_def by simp_all
  have skip: "parrs h ! s_base ?r ! (s_off ?r + j) \<noteq> Some a" if "0 \<le> j" "j < 0 + i" for j
  proof -
    have "j < length (take i ?old)" and "take i ?old ! j = ?old ! j"
      using that i by simp_all
    then have "?old ! j \<in> set (take i ?old)"
      using nth_mem by metis
    moreover have "?old ! j = parrs h ! s_base ?r ! (s_off ?r + j)"
      using that il by (intro nth) simp
    ultimately show ?thesis
      using before by auto
  qed
  have fire: "parrs h ! s_base ?r ! (s_off ?r + i) = Some a"
    using at nth [OF il] by simp
  define k where "k = s_len ?r - Suc i"
  have eq: "s_len ?r = i + Suc k"
    using il by (simp add: k_def)
  have norefire: "parrs h1 ! s_base ?r ! (s_off ?r + j) \<noteq> Some a"
    if "Suc i \<le> j" "j < Suc i + k" for j
  proof -
    have "snd nb ! s_base ?r ! (s_off ?r + j) \<in> set (drop (i + 1) ?old)"
      using that eq by (intro rest) simp_all
    moreover have "parrs h1 = snd nb"
      by (simp add: h1_def set_Child_def)
    ultimately show ?thesis
      using after by auto
  qed
  have "Replace grow ns (Some a) h = Replace_loop grow ns (Some a) p ?r (i + Suc k) 0 h"
    using a par p by (simp add: Replace_def deref_def Let_def eq)
  also have "\<dots> = Replace_loop grow ns (Some a) p ?r (Suc k) (0 + i) h"
    by (rule Replace_loop_skip) (rule skip)
  also have "\<dots> = Inr h1"
    unfolding add_0 using fire step norefire by (rule Replace_loop_fire)
  finally have "Replace grow ns (Some a) h = Inr h1" .
  with ch tl show ?thesis
    by simp
qed

theorem Replace_splice_witness:
  "children sample 0 = [Some 1, Some 2] \<and>
   (\<exists>h'. Replace grow_double [Some 3] (Some 2) sample = Inr h' \<and> children h' 0 = [Some 3])"
proof -
  have c: "children sample 0 = [Some 1, Some 2]"
    by (simp add: sample_def children_def elems_def)
  have 1: "2 < length (nodes sample)" "Parent (nodes sample ! 2) = Some 0"
    "0 < length (nodes sample)" "slice_ok (parrs sample) (Child (nodes sample ! 0))"
    by (simp_all add: sample_def leaf_def slice_ok_def)
  have 2: "1 < length (children sample 0)" "children sample 0 ! 1 = Some 2"
    "Some 2 \<notin> set (take 1 (children sample 0))"
    "Some 2 \<notin> set (drop (1 + 1) (children sample 0))"
    by (simp_all add: c)
  have 3: "s_cap (Child (nodes sample ! 0)) < 1 - 1 + length [Some (3::nat)] \<or>
           1 - 1 + length [Some (3::nat)] \<le> 1 + 1 \<or> 1 + 1 = length (children sample 0)"
    by simp
  from Replace_splice [OF 1 2 3, of grow_double] c show ?thesis
    by simp
qed

text \<open>
  C2 as stated fails on the sample store. Replacing the first child by two nodes writes
  both into the backing array of the parent, over the second child, before the tail is
  read: the result is 3, 4, 4 and not 3, 4, 2. Replacing the first child by one node
  gives 3, 2: the element that was at \<open>i + 1\<close> is kept, not dropped.
\<close>

theorem Replace_splice_counterexample:
  "children sample 0 = [Some 1, Some 2] \<and>
   children_after (Replace grow_double [Some 3, Some 4] (Some 1) sample) 0 =
     Inr [Some 3, Some 4, Some 4] \<and>
   children_after (Replace grow_double [Some 3, Some 4] (Some 1) sample) 0 \<noteq>
     Inr (take (0 - 1) (children sample 0) @ [Some 3, Some 4] @
          drop (0 + 1) (children sample 0)) \<and>
   children_after (Replace grow_double [Some 3] (Some 1) sample) 0 = Inr [Some 3, Some 2]"
  by (simp add: children_after_def Replace_def deref_def sample_def leaf_def Replace_step_def
      slice_to_def slice_from_def go_append_def store_at_def elems_def set_Child_def
      children_def grow_double_def numeral_2_eq_2 Let_def)

section \<open>CopyAnd\<close>

text \<open>
  C3, at the second child (node 2) of node 0 in the sample store, with three operations:
  the three clones 5, 6, 7 take the place of both children. The first child is dropped
  with N, and the parent goes from two children to three, not to four.
\<close>

theorem CopyAnd_drops_previous_sibling:
  "children sample 0 = [Some 1, Some 2] \<and>
   children_after
     (CopyAnd grow_double (cloneNode 1)
        [ModifyAttrib ''id'' ''a'', ModifyAttrib ''id'' ''b'', ModifyAttrib ''id'' ''c'']
        (Some 2) sample) 0 = Inr [Some 5, Some 6, Some 7]"
  by code_simp

section \<open>The clone and the source document\<close>






lemma take_prefix_update:
  "take (length xs) ys = xs \<Longrightarrow> length xs \<le> b \<Longrightarrow> take (length xs) (ys[b := y]) = xs"
  by simp






















































































end
